theory Spec2Isabelle
  imports Complex_Main "HOL-Library.Multiset"
begin

section \<open>Regex Roulette: the program\<close>

text \<open>
  The program is one Python module, \<^verbatim>\<open>regex_roulette.py\<close>, with three functions:
  \<^verbatim>\<open>generate_edge_cases\<close> (a list literal of ten tuples), \<^verbatim>\<open>test_pattern\<close> (compile the
  user's pattern, shuffle the cases, full-match every case, count, score, print) and
  \<^verbatim>\<open>main\<close> (the prompt loop). It uses two modules of the standard library, \<^verbatim>\<open>re\<close>
  and \<^verbatim>\<open>random\<close>, which are no part of the repository.

  A Python \<^verbatim>\<open>str\<close> is a sequence of code points. It is modelled as a \<^typ>\<open>string\<close>, one
  \<^typ>\<open>char\<close> per code point, which covers the code points below U+0100; every literal of
  the program except the printed emoji lies in that range.
\<close>

subsection \<open>Exceptions\<close>

text \<open>
  The exceptions the program can meet. \<^verbatim>\<open>re.error\<close> carries its attributes \<^verbatim>\<open>msg\<close> and
  \<^verbatim>\<open>pos\<close>. \<open>NotModelled\<close> is no Python exception: the model of \<^verbatim>\<open>re\<close> below answers
  with it on a pattern whose syntax it does not cover, and says nothing about Python there.
\<close>

datatype py_exn =
    ReError string nat
  | OverflowError string
  | ZeroDivisionError
  | EOFError
  | NotModelled

subsection \<open>Characters\<close>

text \<open>\<^verbatim>\<open>ord(c)\<close>, and \<^verbatim>\<open>c.isspace()\<close> on the code points below U+0100.\<close>

definition code_point :: "char \<Rightarrow> nat" where
  "code_point c = of_char c"

definition between :: "nat \<Rightarrow> char \<Rightarrow> nat \<Rightarrow> bool" where
  "between lo c hi = (lo \<le> code_point c \<and> code_point c \<le> hi)"

definition is_space :: "char \<Rightarrow> bool" where
  "is_space c =
     (between 0x09 c 0x0D \<or> between 0x1C c 0x20 \<or> code_point c = 0x85 \<or> code_point c = 0xA0)"

subsection \<open>The catalog\<close>

type_synonym edge_case = "string \<times> string \<times> string"

abbreviation bsl :: char where
  "bsl \<equiv> CHR 0x5C"

abbreviation newline :: char where
  "newline \<equiv> CHR 0x0A"

text \<open>
  \<^verbatim>\<open>generate_edge_cases()\<close>: the tuples \<^verbatim>\<open>(test_string, should_match, description)\<close>.
  The second component is a pattern (a raw string in the source), \<open>bsl\<close> is the backslash,
  and the eighth subject ends in U+00E9.
\<close>

definition generate_edge_cases :: "edge_case list" where
  "generate_edge_cases =
    [(''hello world'', ''hello'' @ bsl # ''s+world'', ''Basic sanity check (you'll fail this)''),
     (''hello'' @ newline # ''world'', ''hello.world'', ''. doesn't match newline (surprise!''),
     (''foo bar baz'', ''foo.*baz'', ''Greedy vs non-greedy? Who knows!''),
     (''123-456-7890'', bsl # ''d{3}-'' @ bsl # ''d{3}-'' @ bsl # ''d{4}'',
        ''Phone number (works until international)''),
     (''user@example.com'', bsl # ''w+@'' @ bsl # ''w+'' @ bsl # ''.'' @ bsl # ''w+'',
        ''Email (ignores 99% of real emails)''),
     ('''', ''^.*$'', ''Empty string (your regex's existential crisis)''),
     (replicate 1000 CHR ''a'', ''a{5,10}'', ''Long strings: where greed goes to die''),
     (''caf'' @ [CHR 0xE9], ''cafe'', ''Unicode: because bytes have feelings too''),
     (''  spaces  '', ''^spaces$'', ''Whitespace: the silent regex killer''),
     (''price: $19.99'', bsl # ''$'' @ bsl # ''d+'', ''Special chars escaping (did you remember?)'')]"

subsection \<open>The interface of the regex engine\<close>

text \<open>
  What \<^verbatim>\<open>test_pattern\<close> uses of \<^verbatim>\<open>re\<close>: \<^verbatim>\<open>re.compile(pattern)\<close>, which returns a compiled
  pattern or raises, and \<^verbatim>\<open>bool(compiled.fullmatch(s))\<close>. The engine is a parameter of the
  program's functions, so that what is proved of them for every engine holds for Python's.
\<close>

record 'cp re_engine =
  re_compile :: "string \<Rightarrow> py_exn + 'cp"
  cp_fullmatch :: "'cp \<Rightarrow> string \<Rightarrow> bool"

text \<open>
  \<^verbatim>\<open>bool(re.fullmatch(pattern, s))\<close>, the module-level function: it compiles the pattern
  text and full-matches, so it raises what compiling raises.
\<close>

definition re_fullmatch :: "'cp re_engine \<Rightarrow> string \<Rightarrow> string \<Rightarrow> py_exn + bool" where
  "re_fullmatch E pattern s =
     (case re_compile E pattern of
        Inl e \<Rightarrow> Inl e
      | Inr compiled \<Rightarrow> Inr (cp_fullmatch E compiled s))"

subsection \<open>The random source and \<^verbatim>\<open>random.shuffle\<close>\<close>

text \<open>
  The generator's state is the sequence of raw draws still to come. \<^verbatim>\<open>_randbelow(n)\<close>
  returns a number below \<open>n\<close> and advances the state.
\<close>

type_synonym rng = "nat \<Rightarrow> nat"

definition randbelow :: "nat \<Rightarrow> rng \<Rightarrow> nat \<times> rng" where
  "randbelow n g = (g 0 mod n, \<lambda>k. g (Suc k))"

text \<open>
  \<^verbatim>\<open>for i in reversed(range(1, len(x))): j = randbelow(i + 1); x[i], x[j] = x[j], x[i]\<close>
\<close>

fun shuffle_from :: "nat \<Rightarrow> 'a list \<Rightarrow> rng \<Rightarrow> 'a list \<times> rng" where
  "shuffle_from 0 x g = (x, g)"
| "shuffle_from (Suc i) x g =
     (case randbelow (Suc i + 1) g of
        (j, g') \<Rightarrow> shuffle_from i (x[Suc i := x ! j, j := x ! Suc i]) g')"

definition shuffle :: "'a list \<Rightarrow> rng \<Rightarrow> 'a list \<times> rng" where
  "shuffle x g = shuffle_from (length x - 1) x g"

subsection \<open>\<^verbatim>\<open>test_pattern\<close>\<close>

datatype feedback = Perfect | Not_terrible | Room_for_improvement | Oof

text \<open>
  What \<^verbatim>\<open>test_pattern\<close> prints, one constructor per \<^verbatim>\<open>print\<close> group, with the values
  the f-strings interpolate (the fixed text and the emoji are left out).
\<close>

datatype event =
    Testing string
  | Syntax_error string nat
  | Case_passed string
  | Case_failed string string bool bool
  | Score_line nat nat rat
  | Feedback_line feedback

text \<open>
  The two verdicts of one iteration, in the order the loop body computes them:
  \<^verbatim>\<open>should_match = bool(re.fullmatch(expected_pattern, test_str))\<close>, then
  \<^verbatim>\<open>actual_match = bool(compiled.fullmatch(test_str))\<close>.
\<close>

definition check_case :: "'cp re_engine \<Rightarrow> 'cp \<Rightarrow> edge_case \<Rightarrow> py_exn + (bool \<times> bool)" where
  "check_case E compiled c =
     (case c of (test_str, expected_pattern, description) \<Rightarrow>
        (case re_fullmatch E expected_pattern test_str of
           Inl e \<Rightarrow> Inl e
         | Inr should_match \<Rightarrow> Inr (should_match, cp_fullmatch E compiled test_str)))"

text \<open>\<^verbatim>\<open>f"{test_str[:50]}{'...' if len(test_str) > 50 else ''}"\<close>\<close>

definition truncated :: "string \<Rightarrow> string" where
  "truncated test_str = take 50 test_str @ (if length test_str > 50 then ''...'' else [])"

text \<open>
  The state of the \<^verbatim>\<open>for\<close> loop: the counter \<^verbatim>\<open>passed\<close> and the lines printed so far. The
  third field is a ghost: the verdicts of the iterations done, which the source computes
  and drops.
\<close>

record loop_state =
  passed :: nat
  printed :: "event list"
  verdicts :: "(edge_case \<times> bool \<times> bool) list"

fun test_loop :: "'cp re_engine \<Rightarrow> 'cp \<Rightarrow> bool \<Rightarrow> edge_case list \<Rightarrow> loop_state \<Rightarrow> py_exn + loop_state" where
  "test_loop E compiled verbose [] st = Inr st"
| "test_loop E compiled verbose (c # cases) st =
     (case check_case E compiled c of
        Inl e \<Rightarrow> Inl e
      | Inr (should_match, actual_match) \<Rightarrow>
          if actual_match = should_match then
            test_loop E compiled verbose cases
              (st\<lparr>passed := passed st + 1,
                  printed := printed st @ (if verbose then [Case_passed (snd (snd c))] else []),
                  verdicts := verdicts st @ [(c, should_match, actual_match)]\<rparr>)
          else
            test_loop E compiled verbose cases
              (st\<lparr>printed := printed st @
                    [Case_failed (snd (snd c)) (truncated (fst c)) should_match actual_match],
                  verdicts := verdicts st @ [(c, should_match, actual_match)]\<rparr>))"

text \<open>\<^verbatim>\<open>passed / len(cases)\<close>: true division, which raises on a zero divisor.\<close>

definition truediv :: "nat \<Rightarrow> nat \<Rightarrow> py_exn + rat" where
  "truediv a b = (if b = 0 then Inl ZeroDivisionError else Inr (of_nat a / of_nat b))"

definition feedback_of :: "rat \<Rightarrow> feedback" where
  "feedback_of score =
     (if score = 1 then Perfect
      else if score > 7 / 10 then Not_terrible
      else if score > 3 / 10 then Room_for_improvement
      else Oof)"

text \<open>
  What a completed run leaves: the local variables \<^verbatim>\<open>passed\<close>, \<^verbatim>\<open>len(cases)\<close> and
  \<^verbatim>\<open>score\<close>, the printed lines and the ghost verdicts.
\<close>

record summary =
  passed_count :: nat
  total_count :: nat
  score_fraction :: rat
  lines_printed :: "event list"
  case_results :: "(edge_case \<times> bool \<times> bool) list"

text \<open>
  The part of \<^verbatim>\<open>test_pattern\<close> after the shuffle, on the list \<^verbatim>\<open>cases\<close> as it then is:
  the loop, the score and the feedback.
\<close>

definition score_cases :: "'cp re_engine \<Rightarrow> 'cp \<Rightarrow> bool \<Rightarrow> edge_case list \<Rightarrow> event list \<Rightarrow> py_exn + summary" where
  "score_cases E compiled verbose cases out =
     (case test_loop E compiled verbose cases \<lparr>passed = 0, printed = out, verdicts = []\<rparr> of
        Inl e \<Rightarrow> Inl e
      | Inr st \<Rightarrow>
          (case truediv (passed st) (length cases) of
             Inl e \<Rightarrow> Inl e
           | Inr score \<Rightarrow>
               Inr \<lparr>passed_count = passed st, total_count = length cases, score_fraction = score,
                    lines_printed = printed st @ [Score_line (passed st) (length cases) score,
                                           Feedback_line (feedback_of score)],
                    case_results = verdicts st\<rparr>))"

text \<open>
  A call of \<^verbatim>\<open>test_pattern\<close> ends in one of three ways: the pattern was rejected with
  \<^verbatim>\<open>re.error\<close>, which the function prints before it returns; the run completed; or an
  exception left the function (\<open>Inl\<close>).
\<close>

datatype report = Rejected "event list" | Completed summary

definition test_pattern :: "'cp re_engine \<Rightarrow> string \<Rightarrow> bool \<Rightarrow> rng \<Rightarrow> (py_exn + report) \<times> rng" where
  "test_pattern E pattern verbose g =
     (case re_compile E pattern of
        Inl (ReError msg pos) \<Rightarrow> (Inr (Rejected [Testing pattern, Syntax_error msg pos]), g)
      | Inl e \<Rightarrow> (Inl e, g)
      | Inr compiled \<Rightarrow>
          (case shuffle generate_edge_cases g of
             (cases, g') \<Rightarrow>
               (case score_cases E compiled verbose cases [Testing pattern] of
                  Inl e \<Rightarrow> (Inl e, g')
                | Inr r \<Rightarrow> (Inr (Completed r), g'))))"

subsection \<open>\<^verbatim>\<open>main\<close>\<close>

text \<open>\<^verbatim>\<open>s.strip()\<close> and \<^verbatim>\<open>s.lower()\<close>, on the code points below U+0100.\<close>

definition strip :: "string \<Rightarrow> string" where
  "strip s = rev (dropWhile is_space (rev (dropWhile is_space s)))"

definition lower :: "string \<Rightarrow> string" where
  "lower s =
     map (\<lambda>c. if between 0x41 c 0x5A \<or> between 0xC0 c 0xD6 \<or> between 0xD8 c 0xDE
              then char_of (code_point c + 32) else c) s"

text \<open>
  The prompt loop. The argument \<open>stdin\<close> lists the lines that \<^verbatim>\<open>input()\<close> will return, which
  raises \<^verbatim>\<open>EOFError\<close> when none is left. The result says how \<^verbatim>\<open>main\<close> ended (\<open>Inr ()\<close> after
  the user's \<^verbatim>\<open>quit\<close>, \<open>Inl\<close> for an exception that left it: \<^verbatim>\<open>main\<close> has no handler), and
  gives the reports of the calls of \<^verbatim>\<open>test_pattern\<close> that returned and the state of the random
  source.
\<close>

fun main :: "'cp re_engine \<Rightarrow> string list \<Rightarrow> rng \<Rightarrow> (py_exn + unit) \<times> report list \<times> rng" where
  "main E [] g = (Inl EOFError, [], g)"
| "main E (line # stdin) g =
     (if lower (strip line) = ''quit'' then (Inr (), [], g)
      else
        (case stdin of
           [] \<Rightarrow> (Inl EOFError, [], g)
         | answer # stdin' \<Rightarrow>
             (case test_pattern E (strip line) (lower (strip answer) = ''y'') g of
                (Inl e, g') \<Rightarrow> (Inl e, [], g')
              | (Inr rep, g') \<Rightarrow>
                  (case main E stdin' g' of (how, reps, g'') \<Rightarrow> (how, rep # reps, g'')))))"

section \<open>The model of \<^verbatim>\<open>re\<close>\<close>

text \<open>
  The module \<^verbatim>\<open>re\<close> belongs to the standard library, not to the program. This section
  models the two functions the program calls, \<^verbatim>\<open>re.compile\<close> and \<^verbatim>\<open>fullmatch\<close>, for a
  fragment of the pattern syntax that holds every pattern of the catalog, after the parser
  and the matcher of CPython 3.
\<close>

subsection \<open>Compiled patterns and matching\<close>

text \<open>
  The compiled form of a pattern: the constructs of the parse tree of \<^verbatim>\<open>re\<close>, with a
  sequence as nested \<open>Concat\<close> and an alternation as nested \<open>Branch\<close>. \<open>Repeat lo hi r\<close>
  repeats \<open>r\<close> at least \<open>lo\<close> times and at most \<open>hi\<close> times, without an upper bound
  when \<open>hi\<close> is \<open>None\<close>.
\<close>

datatype category = Digit | Space | Word

datatype regex =
    Literal char
  | Any
  | In_category category
  | Not_category category
  | At_beginning
  | At_end
  | Empty
  | Concat regex regex
  | Branch regex regex
  | Subpattern regex
  | Repeat nat "nat option" regex

text \<open>
  The character classes \<^verbatim>\<open>\d\<close>, \<^verbatim>\<open>\s\<close> and \<^verbatim>\<open>\w\<close> of a \<^verbatim>\<open>str\<close> pattern, on the code
  points below U+0100: the decimal digits, the white space, and the alphanumerics with the
  underscore.
\<close>

fun in_category :: "category \<Rightarrow> char \<Rightarrow> bool" where
  "in_category Digit c = between 0x30 c 0x39"
| "in_category Space c = is_space c"
| "in_category Word c =
     (between 0x30 c 0x39 \<or> between 0x41 c 0x5A \<or> code_point c = 0x5F \<or> between 0x61 c 0x7A \<or>
      code_point c = 0xAA \<or> between 0xB2 c 0xB3 \<or> code_point c = 0xB5 \<or> between 0xB9 c 0xBA \<or>
      between 0xBC c 0xBE \<or> between 0xC0 c 0xD6 \<or> between 0xD8 c 0xF6 \<or> between 0xF8 c 0xFF)"

text \<open>
  Matching. \<open>ends r s i\<close> lists the positions at which a match of \<open>r\<close> that starts at
  position \<open>i\<close> of the subject \<open>s\<close> can end. The dot matches every character but the
  newline, \<^verbatim>\<open>^\<close> holds at the start of the subject, and \<^verbatim>\<open>$\<close> at its end and before a
  newline that ends it. For a repetition, \<open>advance\<close> runs one more iteration from every
  position reached; after the \<open>lo\<close> iterations that must happen, at most \<open>length s\<close>
  further ones are tried (an iteration that consumes nothing reaches nothing new;
  \<open>ends_spans\<close> below shows that none is lost).
\<close>

definition advance :: "(nat \<Rightarrow> nat list) \<Rightarrow> nat list \<Rightarrow> nat list" where
  "advance once ps = remdups (concat (map once ps))"

fun optional_ends :: "(nat \<Rightarrow> nat list) \<Rightarrow> nat option \<Rightarrow> nat \<Rightarrow> nat list \<Rightarrow> nat list" where
  "optional_ends once hi 0 ps = ps"
| "optional_ends once hi (Suc fuel) ps =
     (if hi = Some 0 then ps
      else ps @ optional_ends once (map_option (\<lambda>h. h - 1) hi) fuel (advance once ps))"

fun repeat_ends :: "(nat \<Rightarrow> nat list) \<Rightarrow> nat \<Rightarrow> nat option \<Rightarrow> nat \<Rightarrow> nat list \<Rightarrow> nat list" where
  "repeat_ends once 0 hi fuel ps = optional_ends once hi fuel ps"
| "repeat_ends once (Suc lo) hi fuel ps =
     (if hi = Some 0 then []
      else repeat_ends once lo (map_option (\<lambda>h. h - 1) hi) fuel (advance once ps))"

primrec ends :: "regex \<Rightarrow> string \<Rightarrow> nat \<Rightarrow> nat list" where
  "ends (Literal c) s i = (if i < length s \<and> s ! i = c then [Suc i] else [])"
| "ends Any s i = (if i < length s \<and> s ! i \<noteq> newline then [Suc i] else [])"
| "ends (In_category k) s i = (if i < length s \<and> in_category k (s ! i) then [Suc i] else [])"
| "ends (Not_category k) s i = (if i < length s \<and> \<not> in_category k (s ! i) then [Suc i] else [])"
| "ends At_beginning s i = (if i = 0 then [i] else [])"
| "ends At_end s i =
     (if i = length s \<or> (Suc i = length s \<and> s ! i = newline) then [i] else [])"
| "ends Empty s i = [i]"
| "ends (Concat a b) s i = concat (map (ends b s) (ends a s i))"
| "ends (Branch a b) s i = ends a s i @ ends b s i"
| "ends (Subpattern r) s i = ends r s i"
| "ends (Repeat lo hi r) s i = repeat_ends (ends r s) lo hi (length s) [i]"

text \<open>
  \<^verbatim>\<open>bool(compiled.fullmatch(s))\<close>: some match that starts at 0 ends at the end of the subject.
  \<^verbatim>\<open>bool(compiled.search(s))\<close>, which the program does not call, is there for comparison: some
  match starts somewhere.
\<close>

definition fullmatch :: "regex \<Rightarrow> string \<Rightarrow> bool" where
  "fullmatch r s = (length s \<in> set (ends r s 0))"


subsection \<open>The model of \<^verbatim>\<open>re\<close>: parsing a pattern\<close>

text \<open>
  \<^verbatim>\<open>re.compile\<close> on a \<^verbatim>\<open>str\<close> pattern without flags, as CPython 3 parses it, for this
  fragment of the syntax: literal characters, the dot, \<^verbatim>\<open>^\<close> and \<^verbatim>\<open>$\<close>, the class escapes
  \<^verbatim>\<open>\d \D \s \S \w \W\<close>, the control escapes \<^verbatim>\<open>\a \f \n \r \t \v\<close>, an escaped character
  that is no ASCII letter or digit, the groups \<^verbatim>\<open>(...)\<close> and \<^verbatim>\<open>(?:...)\<close>, the alternation and
  the quantifiers \<^verbatim>\<open>* + ? {m} {m,} {,n} {m,n}\<close>, greedy or lazy. On everything else (a
  character set, another \<^verbatim>\<open>(?\<close> extension, a back reference, \<^verbatim>\<open>\A \b \B \Z\<close>, a numeric
  escape, a possessive quantifier, a pattern that ends in a lone backslash, a repetition
  number of more than 4300 digits, groups nested deeper than \<open>max_nesting\<close>) the answer is
  \<open>NotModelled\<close>.

  The parser reads the pattern from left to right and keeps a stack of the groups that are
  open. Each frame holds the position of its opening parenthesis, the alternatives that are
  complete and the items of the alternative being read.
\<close>

definition MAXREPEAT :: nat where
  "MAXREPEAT = 4294967295"

definition is_digit :: "char \<Rightarrow> bool" where
  "is_digit c = between 0x30 c 0x39"

definition is_ascii_letter :: "char \<Rightarrow> bool" where
  "is_ascii_letter c = (between 0x41 c 0x5A \<or> between 0x61 c 0x7A)"

definition int_of_digits :: "string \<Rightarrow> nat" where
  "int_of_digits ds = foldl (\<lambda>n d. 10 * n + (code_point d - 0x30)) 0 ds"

text \<open>
  The pattern ends in a backslash that escapes nothing. \<^verbatim>\<open>re\<close> reads one token ahead, so it
  rejects such a pattern before the errors of the last token before the backslash.
\<close>

fun lone_backslash :: "string \<Rightarrow> bool" where
  "lone_backslash [] = False"
| "lone_backslash [c] = (c = bsl)"
| "lone_backslash (c # d # cs) = (if c = bsl then lone_backslash cs else lone_backslash (d # cs))"

record frame =
  opened_at :: nat
  alternatives :: "regex list"
  items :: "regex list"

definition sequence :: "regex list \<Rightarrow> regex" where
  "sequence rs = foldr Concat rs Empty"

fun branches :: "regex list \<Rightarrow> regex" where
  "branches [] = Empty"
| "branches [r] = r"
| "branches (r # rs) = Branch r (branches rs)"

definition close_frame :: "frame \<Rightarrow> regex" where
  "close_frame f = branches (alternatives f @ [sequence (items f)])"

definition new_frame :: "nat \<Rightarrow> frame" where
  "new_frame p = \<lparr>opened_at = p, alternatives = [], items = []\<rparr>"

definition append_item :: "regex \<Rightarrow> frame \<Rightarrow> frame" where
  "append_item r f = f\<lparr>items := items f @ [r]\<rparr>"

type_synonym pstate = "frame \<times> frame list"

text \<open>The escape that starts at position \<open>p\<close> with a backslash and has the character \<open>c\<close> after it.\<close>

definition escape :: "nat \<Rightarrow> char \<Rightarrow> py_exn + regex" where
  "escape p c =
     (if c = CHR ''d'' then Inr (In_category Digit)
      else if c = CHR ''D'' then Inr (Not_category Digit)
      else if c = CHR ''s'' then Inr (In_category Space)
      else if c = CHR ''S'' then Inr (Not_category Space)
      else if c = CHR ''w'' then Inr (In_category Word)
      else if c = CHR ''W'' then Inr (Not_category Word)
      else if c \<in> set ''AbBZ'' then Inl NotModelled
      else if c = CHR ''a'' then Inr (Literal (CHR 0x07))
      else if c = CHR ''f'' then Inr (Literal (CHR 0x0C))
      else if c = CHR ''n'' then Inr (Literal (CHR 0x0A))
      else if c = CHR ''r'' then Inr (Literal (CHR 0x0D))
      else if c = CHR ''t'' then Inr (Literal (CHR 0x09))
      else if c = CHR ''v'' then Inr (Literal (CHR 0x0B))
      else if c \<in> set ''xuUN'' \<or> is_digit c then Inl NotModelled
      else if is_ascii_letter c then Inl (ReError (''bad escape '' @ [bsl, c]) p)
      else Inr (Literal c))"

text \<open>The text after an opening brace: the digits, the comma, the digits, the brace.\<close>

definition braces :: "string \<Rightarrow> (string \<times> string option \<times> string) option" where
  "braces cs =
     (let lo = takeWhile is_digit cs; cs1 = dropWhile is_digit cs in
      case cs1 of
        [] \<Rightarrow> None
      | c # cs2 \<Rightarrow>
          if c = CHR '','' then
            (let hi = takeWhile is_digit cs2; cs3 = dropWhile is_digit cs2 in
             case cs3 of
               [] \<Rightarrow> None
             | d # cs4 \<Rightarrow> if d = CHR ''}'' then Some (lo, Some hi, cs4) else None)
          else if c = CHR ''}'' \<and> lo \<noteq> [] then Some (lo, None, cs2)
          else None)"

definition bounds :: "nat \<Rightarrow> string \<Rightarrow> string option \<Rightarrow> py_exn + (nat \<times> nat option)" where
  "bounds here lo hi =
     (if lo \<noteq> [] \<and> length lo > 4300 then Inl NotModelled
      else if lo \<noteq> [] \<and> int_of_digits lo \<ge> MAXREPEAT then
        Inl (OverflowError ''the repetition number is too large'')
      else
        (let mn = (if lo = [] then 0 else int_of_digits lo) in
         case hi of
           None \<Rightarrow> Inr (mn, Some mn)
         | Some h \<Rightarrow>
             if h = [] then Inr (mn, None)
             else if length h > 4300 then Inl NotModelled
             else if int_of_digits h \<ge> MAXREPEAT then
               Inl (OverflowError ''the repetition number is too large'')
             else if int_of_digits h < mn then
               Inl (ReError ''min repeat greater than max repeat'' here)
             else Inr (mn, Some (int_of_digits h))))"

definition is_at :: "regex \<Rightarrow> bool" where
  "is_at r = (r = At_beginning \<or> r = At_end)"

definition is_repeat :: "regex \<Rightarrow> bool" where
  "is_repeat r = (case r of Repeat lo hi x \<Rightarrow> True | _ \<Rightarrow> False)"

text \<open>A quantifier at position \<open>p\<close>, with the text \<open>cs\<close> after it.\<close>

definition quantify :: "nat \<Rightarrow> nat \<Rightarrow> nat option \<Rightarrow> string \<Rightarrow> pstate \<Rightarrow> py_exn + (pstate \<times> string)" where
  "quantify p lo hi cs st =
     (case st of (cur, stack) \<Rightarrow>
        if items cur = [] \<or> is_at (last (items cur)) then Inl (ReError ''nothing to repeat'' p)
        else if is_repeat (last (items cur)) then Inl (ReError ''multiple repeat'' p)
        else
          (let cur' = cur\<lparr>items := butlast (items cur) @ [Repeat lo hi (last (items cur))]\<rparr> in
           case cs of
             [] \<Rightarrow> Inr ((cur', stack), cs)
           | c # cs' \<Rightarrow>
               if c = CHR ''?'' then Inr ((cur', stack), cs')
               else if c = CHR ''+'' then Inl NotModelled
               else Inr ((cur', stack), cs)))"

definition max_nesting :: nat where
  "max_nesting = 100"

definition step :: "nat \<Rightarrow> char \<Rightarrow> string \<Rightarrow> pstate \<Rightarrow> py_exn + (pstate \<times> string)" where
  "step p c cs st =
     (case st of (cur, stack) \<Rightarrow>
        if c = bsl then
          (case cs of
             [] \<Rightarrow> Inl NotModelled
           | d # cs' \<Rightarrow>
               (case escape p d of
                  Inl e \<Rightarrow> Inl e
                | Inr r \<Rightarrow> Inr ((append_item r cur, stack), cs')))
        else if c = CHR ''['' then Inl NotModelled
        else if c = CHR ''?'' then quantify p 0 (Some 1) cs st
        else if c = CHR ''*'' then quantify p 0 None cs st
        else if c = CHR ''+'' then quantify p 1 None cs st
        else if c = CHR ''{'' then
          (case braces cs of
             None \<Rightarrow> Inr ((append_item (Literal c) cur, stack), cs)
           | Some (lo, hi, rest) \<Rightarrow>
               (case bounds (Suc p) lo hi of
                  Inl e \<Rightarrow> Inl e
                | Inr (mn, mx) \<Rightarrow> quantify p mn mx rest st))
        else if c = CHR ''.'' then Inr ((append_item Any cur, stack), cs)
        else if c = CHR ''('' then
          (if length stack \<ge> max_nesting then Inl NotModelled
           else
             (case cs of
                [] \<Rightarrow> Inr ((new_frame p, cur # stack), cs)
              | d # cs' \<Rightarrow>
                  if d = CHR ''?'' then
                    (case cs' of
                       [] \<Rightarrow> Inl NotModelled
                     | e # cs'' \<Rightarrow>
                         if e = CHR '':'' then Inr ((new_frame p, cur # stack), cs'')
                         else Inl NotModelled)
                  else Inr ((new_frame p, cur # stack), cs)))
        else if c = CHR '')'' then
          (case stack of
             [] \<Rightarrow> Inl (ReError ''unbalanced parenthesis'' p)
           | outer # stack' \<Rightarrow> Inr ((append_item (Subpattern (close_frame cur)) outer, stack'), cs))
        else if c = CHR ''|'' then
          Inr ((cur\<lparr>alternatives := alternatives cur @ [sequence (items cur)], items := []\<rparr>, stack), cs)
        else if c = CHR ''^'' then Inr ((append_item At_beginning cur, stack), cs)
        else if c = CHR ''$'' then Inr ((append_item At_end cur, stack), cs)
        else Inr ((append_item (Literal c) cur, stack), cs))"

lemma dropWhile_Cons_length: "dropWhile P xs = y # ys \<Longrightarrow> length ys < length xs"
  using length_dropWhile_le [of P xs] by simp

lemma braces_length: "braces cs = Some (lo, hi, rest) \<Longrightarrow> length rest < length cs"
  unfolding braces_def Let_def
  by (auto split: list.splits if_splits dest!: dropWhile_Cons_length)

lemma quantify_length: "quantify p lo hi cs st = Inr (st', rest) \<Longrightarrow> length rest \<le> length cs"
  by (auto simp: quantify_def Let_def split: prod.splits if_splits list.splits)

lemma step_length: "step p c cs st = Inr (st', rest) \<Longrightarrow> length rest \<le> length cs"
  unfolding step_def
  by (auto split: prod.splits if_splits list.splits sum.splits option.splits
           dest!: quantify_length braces_length)

function parse :: "nat \<Rightarrow> string \<Rightarrow> pstate \<Rightarrow> py_exn + regex" where
  "parse n [] st =
     (case st of (cur, stack) \<Rightarrow>
        if stack = [] then Inr (close_frame cur)
        else Inl (ReError ''missing ), unterminated subpattern'' (opened_at cur)))"
| "parse n (c # cs) st =
     (case step (n - Suc (length cs)) c cs st of
        Inl e \<Rightarrow> Inl e
      | Inr (st', rest) \<Rightarrow> parse n rest st')"
  by pat_completeness auto
termination
  by (relation "measure (\<lambda>(n, cs, st). length cs)") (auto dest: step_length)

text \<open>\<^verbatim>\<open>re.compile(pattern)\<close>.\<close>

definition sre_compile :: "string \<Rightarrow> py_exn + regex" where
  "sre_compile pattern =
     (if lone_backslash pattern then Inl NotModelled
      else parse (length pattern) pattern (new_frame 0, []))"

text \<open>The engine the program runs on.\<close>

definition py_re :: "regex re_engine" where
  "py_re = \<lparr>re_compile = sre_compile, cp_fullmatch = fullmatch\<rparr>"

section \<open>What the properties are stated in\<close>

text \<open>
  The meaning of a compiled pattern, as a relation between positions of the subject:
  \<open>(i, j) \<in> spans r s\<close> when \<open>r\<close> matches the slice of \<open>s\<close> from \<open>i\<close> to \<open>j\<close>. A sequence is
  the composition of its parts, an alternation their union, and a repetition the union of
  the powers the bounds allow.
\<close>

definition upto_max :: "nat option \<Rightarrow> nat \<Rightarrow> bool" where
  "upto_max hi k = (case hi of None \<Rightarrow> True | Some h \<Rightarrow> k \<le> h)"

primrec spans :: "regex \<Rightarrow> string \<Rightarrow> (nat \<times> nat) set" where
  "spans (Literal c) s = {(i, j). i < length s \<and> s ! i = c \<and> j = Suc i}"
| "spans Any s = {(i, j). i < length s \<and> s ! i \<noteq> newline \<and> j = Suc i}"
| "spans (In_category k) s = {(i, j). i < length s \<and> in_category k (s ! i) \<and> j = Suc i}"
| "spans (Not_category k) s = {(i, j). i < length s \<and> \<not> in_category k (s ! i) \<and> j = Suc i}"
| "spans At_beginning s = {(i, j). i = 0 \<and> j = 0}"
| "spans At_end s = {(i, j). (i = length s \<or> (Suc i = length s \<and> s ! i = newline)) \<and> j = i}"
| "spans Empty s = Id"
| "spans (Concat a b) s = spans a s O spans b s"
| "spans (Branch a b) s = spans a s \<union> spans b s"
| "spans (Subpattern r) s = spans r s"
| "spans (Repeat lo hi r) s = (\<Union>k \<in> {k. lo \<le> k \<and> upto_max hi k}. spans r s ^^ k)"

text \<open>A relation on positions that only moves forward and stays within the subject.\<close>

definition forward :: "nat \<Rightarrow> (nat \<times> nat) set \<Rightarrow> bool" where
  "forward n R = (\<forall>p q. (p, q) \<in> R \<longrightarrow> p \<le> q \<and> q \<le> max p n)"

definition rel_of :: "(nat \<Rightarrow> nat list) \<Rightarrow> (nat \<times> nat) set" where
  "rel_of f = {(p, q). q \<in> set (f p)}"

text \<open>
  The condition of the loop body, \<^verbatim>\<open>actual_match == should_match\<close>, as a predicate on the
  case; the lines one iteration prints; the ghost entry it records.
\<close>

definition agree :: "'cp re_engine \<Rightarrow> 'cp \<Rightarrow> edge_case \<Rightarrow> bool" where
  "agree E compiled c =
     (case check_case E compiled c of
        Inl e \<Rightarrow> False
      | Inr (should_match, actual_match) \<Rightarrow> actual_match = should_match)"

definition case_lines :: "bool \<Rightarrow> edge_case \<Rightarrow> bool \<times> bool \<Rightarrow> event list" where
  "case_lines verbose c v =
     (case v of (should_match, actual_match) \<Rightarrow>
        if actual_match = should_match then (if verbose then [Case_passed (snd (snd c))] else [])
        else [Case_failed (snd (snd c)) (truncated (fst c)) should_match actual_match])"

definition verdict_of :: "'cp re_engine \<Rightarrow> 'cp \<Rightarrow> edge_case \<Rightarrow> edge_case \<times> bool \<times> bool" where
  "verdict_of E compiled c = (c, projr (check_case E compiled c))"


text \<open>Every reference pattern of the catalog compiles in the engine.\<close>

definition catalog_valid :: "'cp re_engine \<Rightarrow> bool" where
  "catalog_valid E = list_all (\<lambda>c. \<not> isl (re_compile E (fst (snd c)))) generate_edge_cases"

text \<open>The patterns that the examples below compile.\<close>

definition re_foo :: regex where
  "re_foo = Concat (Literal CHR ''f'') (Concat (Literal CHR ''o'') (Concat (Literal CHR ''o'') Empty))"

section \<open>Properties\<close>

subsection \<open>The loop, the score and the shuffle, for every engine\<close>

lemma length_generate_edge_cases: "length generate_edge_cases = 10"
  by (simp add: generate_edge_cases_def)

lemma isr_conv: "\<not> isl x \<longleftrightarrow> (\<exists>v. x = Inr v)"
  by (cases x) auto

lemma check_case_Inr_iff:
  "(\<exists>v. check_case E compiled c = Inr v) \<longleftrightarrow> (\<exists>r. re_compile E (fst (snd c)) = Inr r)"
  by (auto simp: check_case_def re_fullmatch_def split: prod.splits sum.splits)

lemma test_loop_Inr:
  assumes "\<forall>c \<in> set cases. \<exists>v. check_case E compiled c = Inr v"
  shows "test_loop E compiled verbose cases st =
           Inr \<lparr>passed = passed st + length (filter (agree E compiled) cases),
                printed = printed st @
                  concat (map (\<lambda>c. case_lines verbose c (projr (check_case E compiled c))) cases),
                verdicts = verdicts st @ map (verdict_of E compiled) cases\<rparr>"
  using assms
proof (induction cases arbitrary: st)
  case Nil
  then show ?case by simp
next
  case (Cons c cases)
  from Cons.prems have "\<exists>v. check_case E compiled c = Inr v"
    by simp
  then obtain v0 where "check_case E compiled c = Inr v0" ..
  then obtain sm am where v: "check_case E compiled c = Inr (sm, am)"
    by (cases v0) simp
  have rest: "\<forall>d \<in> set cases. \<exists>v. check_case E compiled d = Inr v"
    using Cons.prems by simp
  note IH = Cons.IH [OF rest]
  have a: "agree E compiled c = (am = sm)"
    by (simp add: agree_def v)
  have l: "case_lines b c (sm, am) =
             (if am = sm then (if b then [Case_passed (snd (snd c))] else [])
              else [Case_failed (snd (snd c)) (truncated (fst c)) sm am])" for b
    by (simp add: case_lines_def)
  have w: "verdict_of E compiled c = (c, sm, am)"
    by (simp add: verdict_of_def v)
  show ?case
  proof (cases "am = sm")
    case True
    then show ?thesis
      by (simp add: v IH a w case_lines_def)
  next
    case False
    then show ?thesis
      by (simp add: v IH a w case_lines_def)
  qed
qed

lemma test_loop_Inl:
  assumes "c \<in> set cases" and "check_case E compiled c = Inl e"
  shows "\<exists>e'. test_loop E compiled verbose cases st = Inl e'"
  using assms
proof (induction cases arbitrary: st)
  case Nil
  then show ?case by simp
next
  case (Cons d cases)
  show ?case
  proof (cases "check_case E compiled d")
    case (Inl e')
    then show ?thesis by simp
  next
    case (Inr v)
    with Cons.prems have "c \<in> set cases" by auto
    from Cons.IH [OF this Cons.prems(2)] Inr show ?thesis
      by (auto split: prod.splits)
  qed
qed

lemma truediv_le:
  assumes "p \<le> n" and "truediv p n = Inr q"
  shows "q = of_nat p / of_nat n \<and> 0 \<le> q \<and> q \<le> 1 \<and> 1 \<le> n"
proof -
  from assms(2) have n: "n \<noteq> 0" and q: "q = of_nat p / of_nat n"
    by (auto simp: truediv_def split: if_splits)
  have "q \<le> 1" using assms(1) n unfolding q by (simp add: divide_le_eq_1)
  moreover have "0 \<le> q" unfolding q by simp
  ultimately show ?thesis using n q by simp
qed

lemma score_cases_Inr:
  assumes "\<forall>c \<in> set cases. \<exists>v. check_case E compiled c = Inr v" and "cases \<noteq> []"
  shows "score_cases E compiled verbose cases out =
           Inr \<lparr>passed_count = length (filter (agree E compiled) cases),
                total_count = length cases,
                score_fraction = of_nat (length (filter (agree E compiled) cases)) / of_nat (length cases),
                lines_printed = out @
                  concat (map (\<lambda>c. case_lines verbose c (projr (check_case E compiled c))) cases) @
                  [Score_line (length (filter (agree E compiled) cases)) (length cases)
                     (of_nat (length (filter (agree E compiled) cases)) / of_nat (length cases)),
                   Feedback_line (feedback_of
                     (of_nat (length (filter (agree E compiled) cases)) / of_nat (length cases)))],
                case_results = map (verdict_of E compiled) cases\<rparr>"
  using assms(2) by (simp add: score_cases_def test_loop_Inr [OF assms(1)] truediv_def)

lemma score_cases_Inr_iff:
  "(\<exists>r. score_cases E compiled verbose cases out = Inr r) \<longleftrightarrow>
     cases \<noteq> [] \<and> (\<forall>c \<in> set cases. \<exists>v. check_case E compiled c = Inr v)"
proof
  assume ex: "\<exists>r. score_cases E compiled verbose cases out = Inr r"
  have "\<exists>v. check_case E compiled c = Inr v" if "c \<in> set cases" for c
  proof (cases "check_case E compiled c")
    case (Inl e)
    from test_loop_Inl [OF that Inl, of verbose "\<lparr>passed = 0, printed = out, verdicts = []\<rparr>"]
    obtain e' where "test_loop E compiled verbose cases \<lparr>passed = 0, printed = out, verdicts = []\<rparr> = Inl e'"
      by blast
    then have "score_cases E compiled verbose cases out = Inl e'"
      by (simp add: score_cases_def)
    with ex show ?thesis by simp
  next
    case (Inr v)
    then show ?thesis by simp
  qed
  moreover have "cases \<noteq> []"
    using ex by (auto simp: score_cases_def truediv_def split: sum.splits)
  ultimately show "cases \<noteq> [] \<and> (\<forall>c \<in> set cases. \<exists>v. check_case E compiled c = Inr v)"
    by simp
next
  assume "cases \<noteq> [] \<and> (\<forall>c \<in> set cases. \<exists>v. check_case E compiled c = Inr v)"
  then show "\<exists>r. score_cases E compiled verbose cases out = Inr r"
    using score_cases_Inr [of cases E compiled verbose out] by simp
qed

lemma shuffle_from_mset:
  "i < length x \<Longrightarrow> mset (fst (shuffle_from i x g)) = mset x"
proof (induction i arbitrary: x g)
  case 0
  then show ?case by simp
next
  case (Suc i)
  obtain j g' where r: "randbelow (Suc i + 1) g = (j, g')"
    by (cases "randbelow (Suc i + 1) g")
  then have j: "j < length x"
    using Suc.prems by (auto simp: randbelow_def intro: less_le_trans [OF mod_less_divisor])
  have "mset (x[Suc i := x ! j, j := x ! Suc i]) = mset x"
    using Suc.prems j by (simp add: mset_swap)
  moreover have "i < length (x[Suc i := x ! j, j := x ! Suc i])"
    using Suc.prems by simp
  ultimately show ?case
    using Suc.IH [of "x[Suc i := x ! j, j := x ! Suc i]" g'] r by simp
qed

lemma shuffle_mset: "mset (fst (shuffle x g)) = mset x"
proof (cases x)
  case Nil
  then show ?thesis by (simp add: shuffle_def)
next
  case (Cons a as)
  then show ?thesis by (simp add: shuffle_def shuffle_from_mset)
qed

lemma catalog_valid_check:
  assumes "catalog_valid E" and "set cases = set generate_edge_cases"
  shows "\<forall>c \<in> set cases. \<exists>v. check_case E compiled c = Inr v"
proof
  fix c assume "c \<in> set cases"
  with assms have "\<not> isl (re_compile E (fst (snd c)))"
    by (simp add: catalog_valid_def list_all_iff)
  then have "\<exists>r. re_compile E (fst (snd c)) = Inr r"
    by (simp add: isr_conv)
  then show "\<exists>v. check_case E compiled c = Inr v"
    using check_case_Inr_iff [of E compiled c] by blast
qed

lemma count_agree_mset:
  assumes "mset xs = mset ys"
  shows "length (filter P xs) = length (filter P ys)"
proof -
  have "size (filter_mset P (mset xs)) = size (filter_mset P (mset ys))"
    using assms by simp
  then show ?thesis
    by (simp only: mset_filter [symmetric] size_mset)
qed

lemma catalog_nonempty: "generate_edge_cases \<noteq> []"
  using length_generate_edge_cases by auto

lemma permuted_nonempty:
  assumes "mset cases = mset generate_edge_cases"
  shows "cases \<noteq> []" and "length cases = 10" and "set cases = set generate_edge_cases"
proof -
  show "length cases = 10"
    using mset_eq_length [OF assms] length_generate_edge_cases by simp
  then show "cases \<noteq> []" by auto
  show "set cases = set generate_edge_cases"
    using mset_eq_setD [OF assms] .
qed

subsection \<open>The matcher computes the meaning of the pattern\<close>

lemma forward_relpow: "forward n R \<Longrightarrow> forward n (R ^^ k)"
proof (induction k)
  case 0
  then show ?case by (simp add: forward_def)
next
  case (Suc k)
  show ?case
    unfolding forward_def
  proof (intro allI impI)
    fix p q assume "(p, q) \<in> R ^^ Suc k"
    then obtain m where "(p, m) \<in> R ^^ k" and "(m, q) \<in> R" by auto
    with Suc show "p \<le> q \<and> q \<le> max p n"
      unfolding forward_def by (metis le_trans max.absorb1 max.cobounded2 max_def)
  qed
qed

lemma forward_spans: "forward (length s) (spans r s)"
proof (induction r)
  case (Concat a b)
  show ?case
    unfolding forward_def
  proof (intro allI impI)
    fix p q assume "(p, q) \<in> spans (Concat a b) s"
    then obtain m where "(p, m) \<in> spans a s" and "(m, q) \<in> spans b s" by auto
    with Concat show "p \<le> q \<and> q \<le> max p (length s)"
      unfolding forward_def by (metis le_trans max.absorb1 max.cobounded2 max_def)
  qed
next
  case (Repeat lo hi r)
  then show ?case
    using forward_relpow [of "length s" "spans r s"] by (auto simp: forward_def)
qed (auto simp: forward_def)

lemma advance_iff: "q \<in> set (advance f ps) \<longleftrightarrow> (\<exists>p \<in> set ps. (p, q) \<in> rel_of f)"
  by (auto simp: advance_def rel_of_def)

lemma upto_max_0: "upto_max hi 0"
  by (simp add: upto_max_def split: option.splits)

lemma upto_max_Suc:
  "hi \<noteq> Some 0 \<Longrightarrow> upto_max hi (Suc k) \<longleftrightarrow> upto_max (map_option (\<lambda>h. h - 1) hi) k"
  by (cases hi) (auto simp: upto_max_def)

lemma upto_max_Some_0: "upto_max (Some 0) k \<longleftrightarrow> k = 0"
  by (simp add: upto_max_def)

lemma upto_max_less: "upto_max hi k \<Longrightarrow> k' \<le> k \<Longrightarrow> upto_max hi k'"
  by (cases hi) (auto simp: upto_max_def)

lemma optional_ends_iff:
  "j \<in> set (optional_ends f hi fuel ps) \<longleftrightarrow>
     (\<exists>k p. k \<le> fuel \<and> upto_max hi k \<and> p \<in> set ps \<and> (p, j) \<in> rel_of f ^^ k)"
proof (induction fuel arbitrary: hi ps)
  case 0
  show ?case by (auto simp: upto_max_0)
next
  case (Suc fuel)
  show ?case
  proof (cases "hi = Some 0")
    case True
    then show ?thesis by (auto simp: upto_max_Some_0)
  next
    case False
    let ?hi = "map_option (\<lambda>h. h - 1) hi"
    have "j \<in> set (optional_ends f hi (Suc fuel) ps) \<longleftrightarrow>
            j \<in> set ps \<or> j \<in> set (optional_ends f ?hi fuel (advance f ps))"
      using False by simp
    also have "\<dots> \<longleftrightarrow> j \<in> set ps \<or>
        (\<exists>k q. k \<le> fuel \<and> upto_max ?hi k \<and> q \<in> set (advance f ps) \<and> (q, j) \<in> rel_of f ^^ k)"
      by (simp only: Suc.IH)
    also have "\<dots> \<longleftrightarrow>
        (\<exists>k p. k \<le> Suc fuel \<and> upto_max hi k \<and> p \<in> set ps \<and> (p, j) \<in> rel_of f ^^ k)"
      (is "?L \<longleftrightarrow> ?R")
    proof
      assume ?L
      then show ?R
      proof
        assume "j \<in> set ps"
        then have "0 \<le> Suc fuel \<and> upto_max hi 0 \<and> j \<in> set ps \<and> (j, j) \<in> rel_of f ^^ 0"
          by (simp add: upto_max_0)
        then show ?R by blast
      next
        assume "\<exists>k q. k \<le> fuel \<and> upto_max ?hi k \<and> q \<in> set (advance f ps) \<and> (q, j) \<in> rel_of f ^^ k"
        then obtain k q where k: "k \<le> fuel" "upto_max ?hi k"
          and q: "q \<in> set (advance f ps)" "(q, j) \<in> rel_of f ^^ k"
          by blast
        from q(1) obtain p where p: "p \<in> set ps" "(p, q) \<in> rel_of f"
          by (auto simp: advance_iff)
        have "(p, j) \<in> rel_of f ^^ Suc k"
          using relpow_Suc_I2 [OF p(2) q(2)] .
        moreover have "upto_max hi (Suc k)"
          using k(2) False by (simp add: upto_max_Suc)
        ultimately have "Suc k \<le> Suc fuel \<and> upto_max hi (Suc k) \<and> p \<in> set ps \<and> (p, j) \<in> rel_of f ^^ Suc k"
          using k(1) p(1) by simp
        then show ?R by blast
      qed
    next
      assume ?R
      then obtain k p where k: "k \<le> Suc fuel" "upto_max hi k"
        and p: "p \<in> set ps" "(p, j) \<in> rel_of f ^^ k"
        by blast
      show ?L
      proof (cases k)
        case 0
        with p show ?thesis by simp
      next
        case (Suc k')
        with p(2) have "(p, j) \<in> rel_of f ^^ Suc k'" by simp
        from relpow_Suc_D2 [OF this]
        obtain q where q: "(p, q) \<in> rel_of f" "(q, j) \<in> rel_of f ^^ k'"
          by blast
        have "q \<in> set (advance f ps)"
          using p(1) q(1) by (auto simp: advance_iff)
        moreover have "upto_max ?hi k'"
          using k(2) False Suc by (simp add: upto_max_Suc)
        moreover have "k' \<le> fuel"
          using k(1) Suc by simp
        ultimately show ?thesis using q(2) by blast
      qed
    qed
    finally show ?thesis .
  qed
qed

lemma repeat_ends_iff:
  "j \<in> set (repeat_ends f lo hi fuel ps) \<longleftrightarrow>
     (\<exists>k p. lo \<le> k \<and> k \<le> lo + fuel \<and> upto_max hi k \<and> p \<in> set ps \<and> (p, j) \<in> rel_of f ^^ k)"
proof (induction lo arbitrary: hi ps)
  case 0
  show ?case by (simp add: optional_ends_iff)
next
  case (Suc lo)
  show ?case
  proof (cases "hi = Some 0")
    case True
    then show ?thesis by (auto simp: upto_max_Some_0)
  next
    case False
    let ?hi = "map_option (\<lambda>h. h - 1) hi"
    have "j \<in> set (repeat_ends f (Suc lo) hi fuel ps) \<longleftrightarrow>
            j \<in> set (repeat_ends f lo ?hi fuel (advance f ps))"
      using False by simp
    also have "\<dots> \<longleftrightarrow>
        (\<exists>k q. lo \<le> k \<and> k \<le> lo + fuel \<and> upto_max ?hi k \<and> q \<in> set (advance f ps) \<and> (q, j) \<in> rel_of f ^^ k)"
      by (simp only: Suc.IH)
    also have "\<dots> \<longleftrightarrow>
        (\<exists>k p. Suc lo \<le> k \<and> k \<le> Suc lo + fuel \<and> upto_max hi k \<and> p \<in> set ps \<and> (p, j) \<in> rel_of f ^^ k)"
      (is "?L \<longleftrightarrow> ?R")
    proof
      assume ?L
      then obtain k q where k: "lo \<le> k" "k \<le> lo + fuel" "upto_max ?hi k"
        and q: "q \<in> set (advance f ps)" "(q, j) \<in> rel_of f ^^ k"
        by blast
      from q(1) obtain p where p: "p \<in> set ps" "(p, q) \<in> rel_of f"
        by (auto simp: advance_iff)
      have "(p, j) \<in> rel_of f ^^ Suc k"
        using relpow_Suc_I2 [OF p(2) q(2)] .
      moreover have "upto_max hi (Suc k)"
        using k(3) False by (simp add: upto_max_Suc)
      ultimately have "Suc lo \<le> Suc k \<and> Suc k \<le> Suc lo + fuel \<and> upto_max hi (Suc k) \<and> p \<in> set ps
          \<and> (p, j) \<in> rel_of f ^^ Suc k"
        using k(1,2) p(1) by simp
      then show ?R by blast
    next
      assume ?R
      then obtain k p where k: "Suc lo \<le> k" "k \<le> Suc lo + fuel" "upto_max hi k"
        and p: "p \<in> set ps" "(p, j) \<in> rel_of f ^^ k"
        by blast
      from k(1) obtain k' where Suc: "k = Suc k'"
        by (cases k) auto
      with p(2) have "(p, j) \<in> rel_of f ^^ Suc k'" by simp
      from relpow_Suc_D2 [OF this]
      obtain q where q: "(p, q) \<in> rel_of f" "(q, j) \<in> rel_of f ^^ k'"
        by blast
      have "q \<in> set (advance f ps)"
        using p(1) q(1) by (auto simp: advance_iff)
      moreover have "upto_max ?hi k'"
        using k(3) False Suc by (simp add: upto_max_Suc)
      moreover have "lo \<le> k'" "k' \<le> lo + fuel"
        using k(1,2) Suc by simp_all
      ultimately show ?L using q(2) by blast
    qed
    finally show ?thesis .
  qed
qed

text \<open>An iteration that does not advance can be left out.\<close>

lemma relpow_drop:
  assumes "forward n R" and "(p, j) \<in> R ^^ Suc k" and "j - p \<le> k"
  shows "(p, j) \<in> R ^^ k"
  using assms(2,3)
proof (induction k arbitrary: p)
  case 0
  then obtain q where "(p, q) \<in> R" "q = j" by auto
  moreover have "p \<le> j" using calculation assms(1) by (auto simp: forward_def)
  ultimately show ?case using 0 by simp
next
  case (Suc k)
  from relpow_Suc_D2 [OF Suc.prems(1)]
  obtain q where q: "(p, q) \<in> R" "(q, j) \<in> R ^^ Suc k"
    by blast
  have pq: "p \<le> q" using q(1) assms(1) by (auto simp: forward_def)
  show ?case
  proof (cases "q = p")
    case True
    with q(2) show ?thesis by simp
  next
    case False
    with pq have "p < q" by simp
    moreover have "q \<le> j"
      using forward_relpow [OF assms(1), of "Suc k"] q(2) by (auto simp: forward_def)
    ultimately have "j - q \<le> k" using Suc.prems(2) by simp
    from Suc.IH [OF q(2) this] have "(q, j) \<in> R ^^ k" .
    from relpow_Suc_I2 [OF q(1) this] show ?thesis .
  qed
qed

lemma relpow_cap:
  assumes "forward n R" and "(p, j) \<in> R ^^ k" and "lo \<le> k"
  shows "\<exists>k'. lo \<le> k' \<and> k' \<le> lo + n \<and> k' \<le> k \<and> (p, j) \<in> R ^^ k'"
  using assms(2,3)
proof (induction k)
  case 0
  then show ?case by auto
next
  case (Suc k)
  show ?case
  proof (cases "Suc k \<le> lo + n")
    case True
    with Suc.prems show ?thesis by blast
  next
    case False
    have "p \<le> j \<and> j \<le> max p n"
      using forward_relpow [OF assms(1), of "Suc k"] Suc.prems(1) by (auto simp: forward_def)
    then have "j - p \<le> n" by (auto simp: max_def split: if_splits)
    with False have "j - p \<le> k" and "lo \<le> k" by simp_all
    from relpow_drop [OF assms(1) Suc.prems(1) this(1)] have "(p, j) \<in> R ^^ k" .
    from Suc.IH [OF this \<open>lo \<le> k\<close>] show ?thesis by (meson le_SucI)
  qed
qed

lemma ends_spans: "j \<in> set (ends r s i) \<longleftrightarrow> (i, j) \<in> spans r s"
proof (induction r arbitrary: i j)
  case (Concat a b)
  then show ?case by auto
next
  case (Repeat lo hi r)
  have R: "rel_of (ends r s) = spans r s"
    using Repeat by (auto simp: rel_of_def)
  have fw: "forward (length s) (spans r s)"
    by (rule forward_spans)
  have "j \<in> set (ends (Repeat lo hi r) s i) \<longleftrightarrow>
          (\<exists>k. lo \<le> k \<and> k \<le> lo + length s \<and> upto_max hi k \<and> (i, j) \<in> spans r s ^^ k)"
    by (simp add: repeat_ends_iff R)
  also have "\<dots> \<longleftrightarrow> (\<exists>k. lo \<le> k \<and> upto_max hi k \<and> (i, j) \<in> spans r s ^^ k)"
    (is "?L \<longleftrightarrow> ?R")
  proof
    assume ?L then show ?R by blast
  next
    assume ?R
    then obtain k where k: "lo \<le> k" "upto_max hi k" "(i, j) \<in> spans r s ^^ k"
      by blast
    from relpow_cap [OF fw k(3) k(1)] obtain k' where
      "lo \<le> k'" "k' \<le> lo + length s" "k' \<le> k" "(i, j) \<in> spans r s ^^ k'"
      by blast
    moreover have "upto_max hi k'"
      using upto_max_less [OF k(2) \<open>k' \<le> k\<close>] .
    ultimately show ?L by blast
  qed
  also have "\<dots> \<longleftrightarrow> (i, j) \<in> spans (Repeat lo hi r) s"
    by auto
  finally show ?case .
qed auto

lemma fullmatch_spans: "fullmatch r s \<longleftrightarrow> (0, length s) \<in> spans r s"
  by (simp add: fullmatch_def ends_spans)

subsection \<open>Evaluating the model of \<^verbatim>\<open>re\<close>\<close>

lemma optional_ends_unfold:
  "optional_ends f hi fuel ps =
     (if fuel = 0 \<or> hi = Some 0 then ps
      else ps @ optional_ends f (map_option (\<lambda>h. h - 1) hi) (fuel - 1) (advance f ps))"
  by (cases fuel) auto

lemma repeat_ends_unfold:
  "repeat_ends f lo hi fuel ps =
     (if lo = 0 then optional_ends f hi fuel ps
      else if hi = Some 0 then []
      else repeat_ends f (lo - 1) (map_option (\<lambda>h. h - 1) hi) fuel (advance f ps))"
  by (cases lo) auto

lemma advance_Nil: "advance f [] = []"
  by (simp add: advance_def)

lemma optional_ends_Nil: "optional_ends f hi fuel [] = []"
  by (induction fuel arbitrary: hi) (auto simp: advance_Nil)

lemma repeat_ends_Nil: "repeat_ends f lo hi fuel [] = []"
  by (induction lo arbitrary: hi) (auto simp: advance_Nil optional_ends_Nil)

lemmas match_eval =
  fullmatch_def advance_def optional_ends_Nil repeat_ends_Nil
  is_space_def between_def code_point_def

lemmas parse_eval =
  sre_compile_def step_def quantify_def escape_def braces_def bounds_def Let_def
  new_frame_def append_item_def close_frame_def sequence_def is_at_def is_repeat_def
  is_digit_def is_ascii_letter_def between_def code_point_def int_of_digits_def
  MAXREPEAT_def max_nesting_def

lemmas case_weak_congs =
  list.case_cong_weak sum.case_cong_weak option.case_cong_weak prod.case_cong_weak

lemmas run_eval = match_eval repeat_ends_unfold optional_ends_unfold

lemma py_re_catalog_valid: "catalog_valid py_re"
  unfolding catalog_valid_def generate_edge_cases_def py_re_def
  by (simp add: parse_eval cong: case_weak_congs)

lemma reference_verdicts:
  "map (\<lambda>c. re_fullmatch py_re (fst (snd c)) (fst c)) generate_edge_cases =
     map Inr [True, False, True, True, True, True, False, False, False, False]"
  unfolding generate_edge_cases_def py_re_def re_fullmatch_def
  by (simp add: parse_eval run_eval cong: case_weak_congs)

lemma compile_foo: "sre_compile ''foo'' = Inr re_foo"
  by (simp add: parse_eval re_foo_def cong: case_weak_congs)

lemma foo_verdicts:
  "map (\<lambda>c. fullmatch re_foo (fst c)) generate_edge_cases =
     [False, False, False, False, False, False, False, False, False, False]"
  unfolding generate_edge_cases_def re_foo_def
  by (simp add: run_eval)

subsection \<open>Runs of \<^verbatim>\<open>test_pattern\<close>\<close>

lemma test_pattern_compiled:
  assumes "re_compile E pattern = Inr compiled"
  shows "test_pattern E pattern verbose g =
           (map_sum id Completed
              (score_cases E compiled verbose (fst (shuffle generate_edge_cases g)) [Testing pattern]),
            snd (shuffle generate_edge_cases g))"
  by (simp add: test_pattern_def assms split: prod.splits sum.splits)

lemma test_pattern_Completed_D:
  assumes "test_pattern E pattern verbose g = (Inr (Completed r), g')"
  shows "\<exists>compiled. re_compile E pattern = Inr compiled \<and>
           score_cases E compiled verbose (fst (shuffle generate_edge_cases g)) [Testing pattern] = Inr r"
proof (cases "re_compile E pattern")
  case (Inl e)
  with assms show ?thesis
    by (cases e) (simp_all add: test_pattern_def)
next
  case (Inr compiled)
  with assms show ?thesis
    by (auto simp: test_pattern_def split: prod.splits sum.splits)
qed

lemma shuffled_catalog: "mset (fst (shuffle generate_edge_cases g)) = mset generate_edge_cases"
  by (rule shuffle_mset)

lemma score_cases_shuffled:
  assumes "score_cases E compiled verbose (fst (shuffle generate_edge_cases g)) out = Inr r"
  shows "passed_count r = length (filter (agree E compiled) generate_edge_cases)"
    and "total_count r = 10"
    and "score_fraction r = of_nat (passed_count r) / of_nat (total_count r)"
    and "mset (case_results r) = image_mset (verdict_of E compiled) (mset generate_edge_cases)"
proof -
  let ?cases = "fst (shuffle generate_edge_cases g)"
  have ok: "\<forall>c \<in> set ?cases. \<exists>v. check_case E compiled c = Inr v" and ne: "?cases \<noteq> []"
    using assms score_cases_Inr_iff [of E compiled verbose ?cases out] by blast+
  note r = score_cases_Inr [OF ok ne, of verbose out]
  have p: "length (filter (agree E compiled) ?cases) =
           length (filter (agree E compiled) generate_edge_cases)"
    by (rule count_agree_mset [OF shuffled_catalog])
  have n: "length ?cases = 10"
    by (rule permuted_nonempty(2) [OF shuffled_catalog])
  from assms r have eq: "r = \<lparr>passed_count = length (filter (agree E compiled) ?cases),
                total_count = length ?cases,
                score_fraction = of_nat (length (filter (agree E compiled) ?cases)) / of_nat (length ?cases),
                lines_printed = out @
                  concat (map (\<lambda>c. case_lines verbose c (projr (check_case E compiled c))) ?cases) @
                  [Score_line (length (filter (agree E compiled) ?cases)) (length ?cases)
                     (of_nat (length (filter (agree E compiled) ?cases)) / of_nat (length ?cases)),
                   Feedback_line (feedback_of
                     (of_nat (length (filter (agree E compiled) ?cases)) / of_nat (length ?cases)))],
                case_results = map (verdict_of E compiled) ?cases\<rparr>"
    by simp
  show "passed_count r = length (filter (agree E compiled) generate_edge_cases)"
    unfolding eq by (simp add: p)
  show "total_count r = 10"
    unfolding eq by (simp add: n)
  show "score_fraction r = of_nat (passed_count r) / of_nat (total_count r)"
    unfolding eq by simp
  show "mset (case_results r) = image_mset (verdict_of E compiled) (mset generate_edge_cases)"
    unfolding eq by (simp add: shuffled_catalog)
qed

lemma score_independent_of_shuffle:
  assumes "test_pattern E pattern verbose g = (Inr (Completed r), g1)"
    and "test_pattern E pattern verbose' g' = (Inr (Completed r'), g2)"
  shows "passed_count r = passed_count r'" and "total_count r = total_count r'"
    and "score_fraction r = score_fraction r'"
proof -
  from test_pattern_Completed_D [OF assms(1)] obtain compiled where
    c: "re_compile E pattern = Inr compiled" and
    s: "score_cases E compiled verbose (fst (shuffle generate_edge_cases g)) [Testing pattern] = Inr r"
    by blast
  from test_pattern_Completed_D [OF assms(2)] c have
    s': "score_cases E compiled verbose' (fst (shuffle generate_edge_cases g')) [Testing pattern] = Inr r'"
    by auto
  note f = score_cases_shuffled [OF s] and f' = score_cases_shuffled [OF s']
  show "passed_count r = passed_count r'"
    by (simp add: f(1) f'(1))
  then show "score_fraction r = score_fraction r'"
    by (simp add: f(2,3) f'(2,3))
  show "total_count r = total_count r'"
    by (simp add: f(2) f'(2))
qed

lemma filter_le_ten: "length (filter P generate_edge_cases) \<le> 10"
  using length_filter_le [of P generate_edge_cases] length_generate_edge_cases by simp

lemma py_re_compile_foo: "re_compile py_re ''foo'' = Inr re_foo"
  by (simp add: py_re_def compile_foo)

lemma agree_foo:
  "map (agree py_re re_foo) generate_edge_cases =
     [False, True, False, False, False, False, True, True, True, True]"
  unfolding generate_edge_cases_def py_re_def re_fullmatch_def agree_def check_case_def re_foo_def
  by (simp add: parse_eval run_eval cong: case_weak_congs)

lemma count_by_map: "length (filter P xs) = length (filter (\<lambda>b. b) (map P xs))"
  by (simp add: filter_map comp_def)

lemma passed_foo: "length (filter (agree py_re re_foo) generate_edge_cases) = 5"
  by (simp add: count_by_map [of "agree py_re re_foo"] agree_foo)

lemma foo_run:
  "\<exists>r. score_cases py_re re_foo verbose (fst (shuffle generate_edge_cases g)) out = Inr r"
proof -
  have "\<forall>c \<in> set (fst (shuffle generate_edge_cases g)). \<exists>v. check_case py_re re_foo c = Inr v"
    by (rule catalog_valid_check [OF py_re_catalog_valid mset_eq_setD [OF shuffled_catalog]])
  moreover have "fst (shuffle generate_edge_cases g) \<noteq> []"
    by (rule permuted_nonempty(1) [OF shuffled_catalog])
  ultimately show ?thesis
    using score_cases_Inr_iff [of py_re re_foo verbose "fst (shuffle generate_edge_cases g)" out]
    by blast
qed

section \<open>The properties of the specification\<close>

text \<open>
  C4. In every completed run of \<open>test_pattern\<close> the score is the number of cases that pass,
  divided by the number of cases, which is ten; it lies between 0 and 1.
\<close>

theorem score_is_pass_fraction:
  assumes "test_pattern E pattern verbose g = (Inr (Completed r), g')"
  shows "\<exists>compiled. re_compile E pattern = Inr compiled
           \<and> passed_count r = length (filter (agree E compiled) generate_edge_cases)
           \<and> total_count r = length generate_edge_cases
           \<and> 1 \<le> total_count r
           \<and> score_fraction r = of_nat (passed_count r) / of_nat (total_count r)
           \<and> 0 \<le> score_fraction r \<and> score_fraction r \<le> 1"
proof -
  from test_pattern_Completed_D [OF assms] obtain compiled where
    c: "re_compile E pattern = Inr compiled" and
    s: "score_cases E compiled verbose (fst (shuffle generate_edge_cases g)) [Testing pattern] = Inr r"
    by blast
  note f = score_cases_shuffled [OF s]
  have le: "passed_count r \<le> total_count r"
    unfolding f(1) f(2) by (rule filter_le_ten)
  have "0 \<le> score_fraction r"
    unfolding f(3) by simp
  moreover have "score_fraction r \<le> 1"
    unfolding f(3) using le f(2) by (simp add: divide_le_eq_1)
  ultimately show ?thesis
    using c f by (simp add: length_generate_edge_cases)
qed

theorem score_is_pass_fraction_witness:
  "\<exists>r g'. test_pattern py_re ''foo'' False (\<lambda>k. 0) = (Inr (Completed r), g')
      \<and> passed_count r = 5 \<and> total_count r = 10 \<and> score_fraction r = 1 / 2"
proof -
  obtain r where r: "score_cases py_re re_foo False (fst (shuffle generate_edge_cases (\<lambda>k. 0)))
      [Testing ''foo''] = Inr r"
    using foo_run by blast
  have t: "test_pattern py_re ''foo'' False (\<lambda>k. 0) =
             (Inr (Completed r), snd (shuffle generate_edge_cases (\<lambda>k. 0)))"
    by (simp add: test_pattern_compiled [OF py_re_compile_foo] r)
  from score_is_pass_fraction [OF t] obtain compiled where
    c: "re_compile py_re ''foo'' = Inr compiled" and
    p: "passed_count r = length (filter (agree py_re compiled) generate_edge_cases)" and
    n: "total_count r = length generate_edge_cases" and
    s: "score_fraction r = of_nat (passed_count r) / of_nat (total_count r)"
    by blast
  from c have "compiled = re_foo"
    by (simp add: py_re_compile_foo)
  with p have "passed_count r = 5"
    by (simp add: passed_foo)
  moreover have "total_count r = 10"
    using n by (simp add: length_generate_edge_cases)
  ultimately show ?thesis
    using t s by simp
qed

text \<open>
  C5. Scoring a permutation of the catalog gives the same number of passed cases, the same
  number of cases and the same score as scoring the catalog in its own order, and the same
  verdicts up to their order.
\<close>

theorem score_order_independent:
  assumes "mset cases = mset generate_edge_cases"
    and "score_cases E compiled verbose generate_edge_cases out = Inr r"
  shows "\<exists>r'. score_cases E compiled verbose cases out' = Inr r'
           \<and> passed_count r' = passed_count r
           \<and> total_count r' = total_count r
           \<and> score_fraction r' = score_fraction r
           \<and> mset (case_results r') = mset (case_results r)"
proof -
  from assms(2) have ok: "\<forall>c \<in> set generate_edge_cases. \<exists>v. check_case E compiled c = Inr v"
    using score_cases_Inr_iff [of E compiled verbose generate_edge_cases out] by blast
  then have ok': "\<forall>c \<in> set cases. \<exists>v. check_case E compiled c = Inr v"
    using permuted_nonempty(3) [OF assms(1)] by simp
  note a = score_cases_Inr [OF ok catalog_nonempty, of verbose out]
  note b = score_cases_Inr [OF ok' permuted_nonempty(1) [OF assms(1)], of verbose out']
  have n: "length cases = length generate_edge_cases"
    using mset_eq_length [OF assms(1)] .
  have p: "length (filter (agree E compiled) cases) =
           length (filter (agree E compiled) generate_edge_cases)"
    using count_agree_mset [OF assms(1)] .
  from a assms(2) have r: "r = \<lparr>passed_count = length (filter (agree E compiled) generate_edge_cases),
                total_count = length generate_edge_cases,
                score_fraction = of_nat (length (filter (agree E compiled) generate_edge_cases)) / of_nat (length generate_edge_cases),
                lines_printed = out @
                  concat (map (\<lambda>c. case_lines verbose c (projr (check_case E compiled c))) generate_edge_cases) @
                  [Score_line (length (filter (agree E compiled) generate_edge_cases)) (length generate_edge_cases)
                     (of_nat (length (filter (agree E compiled) generate_edge_cases)) / of_nat (length generate_edge_cases)),
                   Feedback_line (feedback_of
                     (of_nat (length (filter (agree E compiled) generate_edge_cases)) / of_nat (length generate_edge_cases)))],
                case_results = map (verdict_of E compiled) generate_edge_cases\<rparr>"
    by simp
  show ?thesis
    unfolding b r by (simp add: n p assms(1))
qed

theorem score_order_independent_witness:
  "\<exists>r r'. score_cases py_re re_foo False generate_edge_cases [] = Inr r
      \<and> score_cases py_re re_foo False (rev generate_edge_cases) [] = Inr r'
      \<and> passed_count r' = passed_count r \<and> passed_count r = 5
      \<and> total_count r' = total_count r \<and> total_count r = 10
      \<and> score_fraction r' = score_fraction r
      \<and> mset (case_results r') = mset (case_results r)"
proof -
  have ok: "\<forall>c \<in> set generate_edge_cases. \<exists>v. check_case py_re re_foo c = Inr v"
    by (rule catalog_valid_check [OF py_re_catalog_valid refl])
  note r = score_cases_Inr [OF ok catalog_nonempty, of False "[]"]
  have m: "mset (rev generate_edge_cases) = mset generate_edge_cases"
    by simp
  from score_order_independent [OF m r, of "[]"] obtain r' where
    "score_cases py_re re_foo False (rev generate_edge_cases) [] = Inr r'"
    "passed_count r' = length (filter (agree py_re re_foo) generate_edge_cases)"
    "total_count r' = length generate_edge_cases"
    "score_fraction r' = of_nat (length (filter (agree py_re re_foo) generate_edge_cases)) /
       of_nat (length generate_edge_cases)"
    "mset (case_results r') = mset (map (verdict_of py_re re_foo) generate_edge_cases)"
    by auto
  with r show ?thesis
    by (simp add: passed_foo length_generate_edge_cases)
qed

text \<open>
  C6. The verdicts of a case do not depend on the run: two completed runs of
  \<open>test_pattern\<close> on the same pattern, whatever the state of the random source and the
  verbosity, record the same verdicts for the same cases, each case of the catalog once,
  and they are the verdicts \<open>check_case\<close> gives for the compiled pattern and the case.
\<close>

theorem verdicts_deterministic:
  assumes "test_pattern E pattern verbose g = (Inr (Completed r), g1)"
    and "test_pattern E pattern verbose' g' = (Inr (Completed r'), g2)"
  shows "mset (case_results r) = mset (case_results r')
           \<and> mset (map fst (case_results r)) = mset generate_edge_cases
           \<and> (\<exists>compiled. re_compile E pattern = Inr compiled
                 \<and> (\<forall>c v. (c, v) \<in> set (case_results r) \<longrightarrow> check_case E compiled c = Inr v))
           \<and> (\<forall>c v v'. (c, v) \<in> set (case_results r) \<and> (c, v') \<in> set (case_results r') \<longrightarrow> v = v')"
proof -
  from test_pattern_Completed_D [OF assms(1)] obtain compiled where
    c: "re_compile E pattern = Inr compiled" and
    s: "score_cases E compiled verbose (fst (shuffle generate_edge_cases g)) [Testing pattern] = Inr r"
    by blast
  from test_pattern_Completed_D [OF assms(2)] c have
    s': "score_cases E compiled verbose' (fst (shuffle generate_edge_cases g')) [Testing pattern] = Inr r'"
    by auto
  note m = score_cases_shuffled(4) [OF s]
  note m' = score_cases_shuffled(4) [OF s']
  have ok: "\<forall>c \<in> set generate_edge_cases. \<exists>v. check_case E compiled c = Inr v"
    using s score_cases_Inr_iff [of E compiled verbose "fst (shuffle generate_edge_cases g)" "[Testing pattern]"]
      mset_eq_setD [OF shuffled_catalog [of g]] by blast
  have mem: "(c, v) \<in> set (case_results x) \<longleftrightarrow> c \<in> set generate_edge_cases \<and> check_case E compiled c = Inr v"
    if "mset (case_results x) = image_mset (verdict_of E compiled) (mset generate_edge_cases)" for x c v
  proof -
    have "set (case_results x) = verdict_of E compiled ` set generate_edge_cases"
      using that by (metis set_image_mset set_mset_mset)
    then show ?thesis
      using ok by (fastforce simp: verdict_of_def image_iff)
  qed
  have "mset (map fst (case_results r)) = image_mset fst (mset (case_results r))"
    by simp
  also have "\<dots> = mset generate_edge_cases"
    unfolding m by (simp add: image_mset.compositionality comp_def verdict_of_def)
  finally have one: "mset (map fst (case_results r)) = mset generate_edge_cases" .
  have two: "\<forall>c v. (c, v) \<in> set (case_results r) \<longrightarrow> check_case E compiled c = Inr v"
    using mem [OF m] by blast
  have three: "\<forall>c v v'. (c, v) \<in> set (case_results r) \<and> (c, v') \<in> set (case_results r') \<longrightarrow> v = v'"
    using mem [OF m] mem [OF m'] by auto
  show ?thesis
    using m m' one two three c by auto
qed

theorem verdicts_deterministic_witness:
  "\<exists>r g1 r' g2. test_pattern py_re ''foo'' False (\<lambda>k. 0) = (Inr (Completed r), g1)
      \<and> test_pattern py_re ''foo'' True (\<lambda>k. k) = (Inr (Completed r'), g2)
      \<and> mset (case_results r) = mset (case_results r')
      \<and> mset (map fst (case_results r)) = mset generate_edge_cases"
proof -
  obtain r where r: "score_cases py_re re_foo False (fst (shuffle generate_edge_cases (\<lambda>k. 0)))
      [Testing ''foo''] = Inr r"
    using foo_run by blast
  obtain r' where r': "score_cases py_re re_foo True (fst (shuffle generate_edge_cases (\<lambda>k. k)))
      [Testing ''foo''] = Inr r'"
    using foo_run by blast
  have t: "test_pattern py_re ''foo'' False (\<lambda>k. 0) =
             (Inr (Completed r), snd (shuffle generate_edge_cases (\<lambda>k. 0)))"
    by (simp add: test_pattern_compiled [OF py_re_compile_foo] r)
  have t': "test_pattern py_re ''foo'' True (\<lambda>k. k) =
             (Inr (Completed r'), snd (shuffle generate_edge_cases (\<lambda>k. k)))"
    by (simp add: test_pattern_compiled [OF py_re_compile_foo] r')
  from verdicts_deterministic [OF t t'] show ?thesis
    using t t' by blast
qed

text \<open>
  C8. When the reference patterns of the catalog compile in the engine, nothing after the
  compilation of the user's pattern fails: \<open>test_pattern\<close> completes from every state of
  the random source, the shuffle returns a permutation of the catalog, and scoring
  completes on every permutation of the catalog.
\<close>

theorem evaluation_total:
  assumes "catalog_valid E" and "re_compile E pattern = Inr compiled"
  shows "(\<exists>r g'. test_pattern E pattern verbose g = (Inr (Completed r), g'))
           \<and> mset (fst (shuffle generate_edge_cases g)) = mset generate_edge_cases
           \<and> (\<forall>cases. mset cases = mset generate_edge_cases \<longrightarrow>
                 (\<exists>r. score_cases E compiled verbose cases out = Inr r))"
proof -
  have all: "\<exists>r. score_cases E compiled verbose cases out' = Inr r"
    if "mset cases = mset generate_edge_cases" for cases out'
  proof -
    have "\<forall>c \<in> set cases. \<exists>v. check_case E compiled c = Inr v"
      by (rule catalog_valid_check [OF assms(1) mset_eq_setD [OF that]])
    moreover have "cases \<noteq> []"
      by (rule permuted_nonempty(1) [OF that])
    ultimately show ?thesis
      using score_cases_Inr_iff [of E compiled verbose cases out'] by blast
  qed
  from all [OF shuffled_catalog, of g "[Testing pattern]"] obtain r where
    "score_cases E compiled verbose (fst (shuffle generate_edge_cases g)) [Testing pattern] = Inr r"
    by blast
  then have "test_pattern E pattern verbose g =
               (Inr (Completed r), snd (shuffle generate_edge_cases g))"
    by (simp add: test_pattern_compiled [OF assms(2)])
  with all shuffled_catalog [of g] show ?thesis
    by blast
qed

theorem evaluation_total_witness:
  "catalog_valid py_re \<and> re_compile py_re ''foo'' = Inr re_foo
     \<and> (\<exists>r g'. test_pattern py_re ''foo'' True (\<lambda>k. 7 * k + 3) = (Inr (Completed r), g'))
     \<and> (\<exists>r. score_cases py_re re_foo True (rev generate_edge_cases) [] = Inr r)"
proof -
  have m: "mset (rev generate_edge_cases) = mset generate_edge_cases"
    by simp
  from evaluation_total [OF py_re_catalog_valid py_re_compile_foo, of True "\<lambda>k. 7 * k + 3" "[]"] m
  show ?thesis
    using py_re_catalog_valid py_re_compile_foo by blast
qed

lemma check_case_py_re:
  "check_case py_re compiled (test_str, expected_pattern, description) =
     (case sre_compile expected_pattern of
        Inl e \<Rightarrow> Inl e
      | Inr reference \<Rightarrow> Inr (fullmatch reference test_str, fullmatch compiled test_str))"
  by (simp add: check_case_def re_fullmatch_def py_re_def split: sum.splits)







lemma literal_power:
  "(p, q) \<in> spans (Literal c) (replicate n c) ^^ k \<longleftrightarrow> q = p + k \<and> (k = 0 \<or> q \<le> n)"
proof (induction k arbitrary: q)
  case 0
  show ?case by auto
next
  case (Suc k)
  have "(p, q) \<in> spans (Literal c) (replicate n c) ^^ Suc k \<longleftrightarrow>
          (\<exists>m. (p, m) \<in> spans (Literal c) (replicate n c) ^^ k \<and> m < n \<and> q = Suc m)"
    by auto
  also have "\<dots> \<longleftrightarrow> (\<exists>m. m = p + k \<and> (k = 0 \<or> m \<le> n) \<and> m < n \<and> q = Suc m)"
    using Suc.IH by blast
  also have "\<dots> \<longleftrightarrow> q = p + Suc k \<and> (Suc k = 0 \<or> q \<le> n)"
    by auto
  finally show ?case .
qed

lemma compile_a_5_10: "sre_compile ''a{5,10}'' = Inr (sequence [Repeat 5 (Some 10) (Literal CHR ''a'')])"
  by (simp add: parse_eval cong: case_weak_congs)

lemma fullmatch_a_5_10:
  "fullmatch (sequence [Repeat 5 (Some 10) (Literal CHR ''a'')]) (replicate n CHR ''a'') \<longleftrightarrow>
     5 \<le> n \<and> n \<le> 10"
proof -
  let ?R = "spans (Literal CHR ''a'') (replicate n CHR ''a'')"
  have "fullmatch (sequence [Repeat 5 (Some 10) (Literal CHR ''a'')]) (replicate n CHR ''a'') \<longleftrightarrow>
          (\<exists>k. 5 \<le> k \<and> k \<le> 10 \<and> (0, n) \<in> ?R ^^ k)"
    by (auto simp: fullmatch_spans sequence_def upto_max_def simp del: spans.simps(1))
  also have "\<dots> \<longleftrightarrow> 5 \<le> n \<and> n \<le> 10"
    unfolding literal_power by auto
  finally show ?thesis .
qed

text \<open>
  C7. The seventh case of the catalog has a thousand times the letter a as its subject and
  the reference pattern \<^verbatim>\<open>a{5,10}\<close>. That pattern full-matches a run of \<open>n\<close> letters a
  exactly when \<open>n\<close> is between 5 and 10, so with it as the user's pattern both verdicts of
  the case are false and the case passes.
\<close>

theorem long_repetition_case:
  "generate_edge_cases ! 6 =
     (replicate 1000 CHR ''a'', ''a{5,10}'', ''Long strings: where greed goes to die'')
   \<and> (\<exists>compiled. re_compile py_re ''a{5,10}'' = Inr compiled
         \<and> (\<forall>n. cp_fullmatch py_re compiled (replicate n CHR ''a'') \<longleftrightarrow> 5 \<le> n \<and> n \<le> 10)
         \<and> check_case py_re compiled (generate_edge_cases ! 6) = Inr (False, False)
         \<and> agree py_re compiled (generate_edge_cases ! 6))"
proof -
  let ?r = "sequence [Repeat 5 (Some 10) (Literal CHR ''a'')]"
  have c: "generate_edge_cases ! 6 =
     (replicate 1000 CHR ''a'', ''a{5,10}'', ''Long strings: where greed goes to die'')"
    by (simp add: generate_edge_cases_def)
  have k: "re_compile py_re ''a{5,10}'' = Inr ?r"
    by (simp add: py_re_def compile_a_5_10)
  have f: "cp_fullmatch py_re ?r (replicate n CHR ''a'') \<longleftrightarrow> 5 \<le> n \<and> n \<le> 10" for n
    by (simp add: py_re_def fullmatch_a_5_10)
  have v: "check_case py_re ?r (generate_edge_cases ! 6) = Inr (False, False)"
    unfolding c check_case_py_re compile_a_5_10 by (simp add: fullmatch_a_5_10)
  then have a: "agree py_re ?r (generate_edge_cases ! 6)"
    by (simp add: agree_def)
  from c k f v a show ?thesis
    by blast
qed

text \<open>
  C9. Each of the ten reference patterns of the catalog compiles; the compiled patterns are
  listed.
\<close>

theorem reference_patterns_compile:
  "map (\<lambda>c. re_compile py_re (fst (snd c))) generate_edge_cases =
     map Inr
      [sequence [Literal CHR ''h'', Literal CHR ''e'', Literal CHR ''l'', Literal CHR ''l'',
         Literal CHR ''o'', Repeat 1 None (In_category Space), Literal CHR ''w'',
         Literal CHR ''o'', Literal CHR ''r'', Literal CHR ''l'', Literal CHR ''d''],
       sequence [Literal CHR ''h'', Literal CHR ''e'', Literal CHR ''l'', Literal CHR ''l'',
         Literal CHR ''o'', Any, Literal CHR ''w'', Literal CHR ''o'', Literal CHR ''r'',
         Literal CHR ''l'', Literal CHR ''d''],
       sequence [Literal CHR ''f'', Literal CHR ''o'', Literal CHR ''o'', Repeat 0 None Any,
         Literal CHR ''b'', Literal CHR ''a'', Literal CHR ''z''],
       sequence [Repeat 3 (Some 3) (In_category Digit), Literal CHR ''-'',
         Repeat 3 (Some 3) (In_category Digit), Literal CHR ''-'',
         Repeat 4 (Some 4) (In_category Digit)],
       sequence [Repeat 1 None (In_category Word), Literal CHR ''@'',
         Repeat 1 None (In_category Word), Literal CHR ''.'', Repeat 1 None (In_category Word)],
       sequence [At_beginning, Repeat 0 None Any, At_end],
       sequence [Repeat 5 (Some 10) (Literal CHR ''a'')],
       sequence [Literal CHR ''c'', Literal CHR ''a'', Literal CHR ''f'', Literal CHR ''e''],
       sequence [At_beginning, Literal CHR ''s'', Literal CHR ''p'', Literal CHR ''a'',
         Literal CHR ''c'', Literal CHR ''e'', Literal CHR ''s'', At_end],
       sequence [Literal CHR ''$'', Repeat 1 None (In_category Digit)]]"
  unfolding generate_edge_cases_def py_re_def
  by (simp add: parse_eval cong: case_weak_congs)

lemma compile_empty_case: "sre_compile ''^.*$'' = Inr (sequence [At_beginning, Repeat 0 None Any, At_end])"
  by (simp add: parse_eval cong: case_weak_congs)

text \<open>
  C10. The sixth case of the catalog has the empty subject and the reference pattern
  \<^verbatim>\<open>^.*$\<close>, which full-matches it. So for every compiled pattern the expected verdict of
  the case is true, and the case passes exactly when the pattern full-matches the empty
  string.
\<close>

theorem empty_string_case:
  "generate_edge_cases ! 5 =
     ('''', ''^.*$'', ''Empty string (your regex's existential crisis)'')
   \<and> re_fullmatch py_re ''^.*$'' '''' = Inr True
   \<and> (\<forall>compiled. check_case py_re compiled (generate_edge_cases ! 5) =
          Inr (True, cp_fullmatch py_re compiled ''''))
   \<and> (\<forall>compiled. agree py_re compiled (generate_edge_cases ! 5) = cp_fullmatch py_re compiled '''')"
proof -
  have c: "generate_edge_cases ! 5 =
     ('''', ''^.*$'', ''Empty string (your regex's existential crisis)'')"
    by (simp add: generate_edge_cases_def)
  have m: "fullmatch (sequence [At_beginning, Repeat 0 None Any, At_end]) ''''"
    by (simp add: sequence_def run_eval)
  have r: "re_fullmatch py_re ''^.*$'' '''' = Inr True"
    by (simp add: re_fullmatch_def py_re_def compile_empty_case m)
  have v: "check_case py_re compiled (generate_edge_cases ! 5) =
          Inr (True, cp_fullmatch py_re compiled '''')" for compiled
    unfolding c check_case_py_re compile_empty_case by (simp add: m py_re_def)
  then have a: "agree py_re compiled (generate_edge_cases ! 5) = cp_fullmatch py_re compiled ''''"
    for compiled
    by (auto simp: agree_def)
  from c r v a show ?thesis
    by blast
qed

text \<open>
  C3. \<open>generate_edge_cases\<close> takes no argument and reads no state, and \<open>test_pattern\<close>
  shuffles the list that its own call returned; the catalog is a constant. It has ten
  records, no two alike, with these subjects, these reference patterns and these
  descriptions, in this order.
\<close>

theorem catalog_fixed:
  "length generate_edge_cases = 10
   \<and> distinct generate_edge_cases
   \<and> map fst generate_edge_cases =
       [''hello world'', ''hello'' @ [newline] @ ''world'', ''foo bar baz'', ''123-456-7890'',
        ''user@example.com'', '''', replicate 1000 CHR ''a'', ''caf'' @ [CHR 0xE9],
        ''  spaces  '', ''price: $19.99'']
   \<and> map (\<lambda>c. fst (snd c)) generate_edge_cases =
       [''hello'' @ [bsl] @ ''s+world'', ''hello.world'', ''foo.*baz'',
        [bsl] @ ''d{3}-'' @ [bsl] @ ''d{3}-'' @ [bsl] @ ''d{4}'',
        [bsl] @ ''w+@'' @ [bsl] @ ''w+'' @ [bsl] @ ''.'' @ [bsl] @ ''w+'',
        ''^.*$'', ''a{5,10}'', ''cafe'', ''^spaces$'', [bsl] @ ''$'' @ [bsl] @ ''d+'']
   \<and> map (\<lambda>c. snd (snd c)) generate_edge_cases =
       [''Basic sanity check (you'll fail this)'', ''. doesn't match newline (surprise!'',
        ''Greedy vs non-greedy? Who knows!'', ''Phone number (works until international)'',
        ''Email (ignores 99% of real emails)'', ''Empty string (your regex's existential crisis)'',
        ''Long strings: where greed goes to die'', ''Unicode: because bytes have feelings too'',
        ''Whitespace: the silent regex killer'', ''Special chars escaping (did you remember?)'']"
  by (simp add: generate_edge_cases_def)

lemma test_pattern_rejected:
  assumes "re_compile E pattern = Inl (ReError msg pos)"
  shows "test_pattern E pattern verbose g = (Inr (Rejected [Testing pattern, Syntax_error msg pos]), g)"
  by (simp add: test_pattern_def assms)

lemma unclosed_rejected:
  "test_pattern py_re ''(unclosed'' verbose g =
     (Inr (Rejected [Testing ''(unclosed'',
        Syntax_error ''missing ), unterminated subpattern'' 0]), g)"
  by (rule test_pattern_rejected) (simp add: py_re_def parse_eval cong: case_weak_congs)

lemmas text_eval = strip_def lower_def is_space_def between_def code_point_def

lemma main_rejected:
  assumes "lower (strip line) \<noteq> ''quit''"
    and "re_compile E (strip line) = Inl (ReError msg pos)"
  shows "main E (line # answer # stdin) g =
           (case main E stdin g of
              (how, reps, g') \<Rightarrow>
                (how, Rejected [Testing (strip line), Syntax_error msg pos] # reps, g'))"
  using assms by (simp add: test_pattern_rejected)

lemma main_escapes:
  assumes "lower (strip line) \<noteq> ''quit''"
    and "test_pattern E (strip line) (lower (strip answer) = ''y'') g = (Inl e, g')"
  shows "main E (line # answer # stdin) g = (Inl e, [], g')"
  using assms by simp

lemma session_unclosed:
  "main py_re [''(unclosed'', ''n'', ''quit''] g =
     (Inr (), [Rejected [Testing ''(unclosed'',
        Syntax_error ''missing ), unterminated subpattern'' 0]], g)"
proof -
  have s: "strip ''(unclosed'' = ''(unclosed''" "strip ''quit'' = ''quit''"
    by (simp_all add: text_eval)
  have l: "lower ''(unclosed'' = ''(unclosed''" "lower ''quit'' = ''quit''"
    by (simp_all add: text_eval)
  show ?thesis
    by (simp add: s l unclosed_rejected)
qed


text \<open>
  C2. A repetition number of 4294967295 or more makes \<^verbatim>\<open>re.compile\<close> raise
  \<^verbatim>\<open>OverflowError\<close>, which is no \<^verbatim>\<open>re.error\<close>: \<open>test_pattern\<close> does not catch it, the
  exception leaves \<open>test_pattern\<close> and \<open>main\<close>, and the patterns that follow in the session
  are not tested. (After an \<^verbatim>\<open>re.error\<close> the session goes on: \<open>main_rejected\<close>,
  \<open>session_unclosed\<close>.)
\<close>

theorem overflow_escapes_test_pattern:
  "re_compile py_re ''a{4294967295}'' = Inl (OverflowError ''the repetition number is too large'')
   \<and> test_pattern py_re ''a{4294967295}'' verbose g =
       (Inl (OverflowError ''the repetition number is too large''), g)
   \<and> main py_re [''a{4294967295}'', ''n'', ''foo'', ''n'', ''quit''] g =
       (Inl (OverflowError ''the repetition number is too large''), [], g)"
proof -
  have s: "strip ''a{4294967295}'' = ''a{4294967295}''"
    by (simp add: text_eval)
  have l: "lower ''a{4294967295}'' = ''a{4294967295}''"
    by (simp add: text_eval)
  have c: "re_compile py_re ''a{4294967295}'' =
          Inl (OverflowError ''the repetition number is too large'')"
    by (simp add: py_re_def parse_eval cong: case_weak_congs)
  have t: "test_pattern py_re ''a{4294967295}'' v g =
       (Inl (OverflowError ''the repetition number is too large''), g)" for v
    by (simp add: test_pattern_def c)
  have m: "main py_re [''a{4294967295}'', ''n'', ''foo'', ''n'', ''quit''] g =
       (Inl (OverflowError ''the repetition number is too large''), [], g)"
    by (simp add: s l t)
  from c t m show ?thesis
    by simp
qed

end
